theory Spec2Isabelle
  imports Complex_Main "HOL-Library.Word"
begin

section \<open>Errors, instants and durations\<close>

text \<open>
  The Python exceptions that the modelled code can raise. \<open>InfiniteLoopException\<close> is the
  plain \<^verbatim>\<open>Exception("Infinite loop!! ...")\<close> of \<^verbatim>\<open>date_range\<close>.
\<close>

datatype error =
    IndexError
  | ZeroDivisionError
  | InfiniteLoopException
  | OverflowError
  | ValueError
  | AssertionError
  | KeyError

text \<open>
  A \<^verbatim>\<open>datetime\<close> is an instant with microsecond resolution: the number of microseconds
  since 1970-01-01 00:00:00 UTC. A \<^verbatim>\<open>timedelta\<close> is a number of microseconds.
  \<^verbatim>\<open>datetime.min\<close> and \<^verbatim>\<open>datetime.max\<close> are 0001-01-01 00:00:00 and
  9999-12-31 23:59:59.999999 (the zone offset of the two sentinels is not modelled).
\<close>

type_synonym datetime = int
type_synonym timedelta = int

definition datetime_min :: datetime where
  "datetime_min = - 62135596800000000"

definition datetime_max :: datetime where
  "datetime_max = 253402300799999999"


text \<open>\<^verbatim>\<open>td.total_seconds()\<close>: the duration in seconds (a float, here a real number).\<close>

definition total_seconds :: "timedelta \<Rightarrow> real" where
  "total_seconds td = real_of_int td / 1000000"

text \<open>
  \<^verbatim>\<open>timedelta(seconds=s)\<close> for a float \<open>s\<close>: the duration is rounded to a whole number of
  microseconds, halves to the even neighbour.
\<close>

definition round_half_even :: "real \<Rightarrow> int" where
  "round_half_even x =
     (let f = \<lfloor>x\<rfloor>; d = x - of_int f in
      if d < 1 / 2 then f
      else if 1 / 2 < d then f + 1
      else if even f then f else f + 1)"

definition timedelta_seconds :: "real \<Rightarrow> timedelta" where
  "timedelta_seconds s = round_half_even (s * 1000000)"

section \<open>aux\_tools\<close>

text \<open>\<^verbatim>\<open>_min\<close> and \<^verbatim>\<open>_max\<close> of aux\_tools.py.\<close>

definition aux_min :: "datetime \<Rightarrow> datetime \<Rightarrow> datetime" where
  "aux_min a b = (if a < b then a else b)"

definition aux_max :: "datetime \<Rightarrow> datetime \<Rightarrow> datetime" where
  "aux_max a b = (if a > b then a else b)"

text \<open>
  \<^verbatim>\<open>date_range(t_start, t_end, t_delta)\<close>: the generator, collected into a list as its
  callers do with \<^verbatim>\<open>list(...)\<close>. The loop yields \<open>t\<close> while \<open>t < t_end\<close>; the addition
  \<^verbatim>\<open>t += t_delta\<close> raises OverflowError when it leaves the range of \<^verbatim>\<open>datetime\<close>.
\<close>

function date_range_loop :: "datetime \<Rightarrow> datetime \<Rightarrow> timedelta \<Rightarrow> error + datetime list" where
  "date_range_loop t t_end t_delta =
     (if t < t_end \<and> t_delta \<noteq> 0 then
        (if t + t_delta < datetime_min \<or> datetime_max < t + t_delta then Inl OverflowError
         else (case date_range_loop (t + t_delta) t_end t_delta of
                 Inl e \<Rightarrow> Inl e
               | Inr ts \<Rightarrow> Inr (t # ts)))
      else Inr [])"
  by pat_completeness auto
termination
  by (relation "measure (\<lambda>(t, t_end, t_delta).
        if 0 < t_delta then nat (datetime_max - t) else nat (t - datetime_min))")
     auto

declare date_range_loop.simps [simp del]

definition date_range :: "datetime \<Rightarrow> datetime \<Rightarrow> timedelta \<Rightarrow> error + datetime list" where
  "date_range t_start t_end t_delta =
     (if total_seconds t_delta = 0 then Inl InfiniteLoopException
      else date_range_loop t_start t_end t_delta)"

text \<open>\<^verbatim>\<open>time_to_float(t_arr, t_ref)\<close> with an explicit reference instant.\<close>

definition time_to_float :: "datetime list \<Rightarrow> datetime \<Rightarrow> real list" where
  "time_to_float t_arr t_ref = map (\<lambda>t. total_seconds (t - t_ref)) t_arr"

section \<open>Library operations used by the synchronizer\<close>

text \<open>
  \<^verbatim>\<open>scipy.interpolate.interp1d(x, y, kind='nearest', assume_sorted=True)\<close>. The constructor
  stores the midpoints \<^verbatim>\<open>x_bds = x/2.0; x_bds = x_bds[1:] + x_bds[:-1]\<close>. A call checks
  that no new abscissa lies outside \<open>[x[0], x[-1]]\<close> (ValueError otherwise), finds where each
  one would be inserted among the midpoints with \<^verbatim>\<open>searchsorted(x_bds, x_new, side='left')\<close>,
  clips the position to \<open>[0, len(x)-1]\<close> and returns the entry of \<open>y\<close> there.
  \<^verbatim>\<open>searchsorted\<close> with \<^verbatim>\<open>side='left'\<close> on an ascending array is the number of entries
  strictly below the key. Floating-point seconds are real numbers here: the rounding of
  IEEE doubles is not part of the model.
\<close>

definition x_bds :: "real list \<Rightarrow> real list" where
  "x_bds x = (let h = map (\<lambda>v. v / 2) x in map2 (+) (tl h) (butlast h))"

definition searchsorted_left :: "real list \<Rightarrow> real \<Rightarrow> nat" where
  "searchsorted_left a v = length (takeWhile (\<lambda>b. b < v) a)"

text \<open>The clipped insertion position of one new abscissa \<open>v\<close>.\<close>

definition x_new_index :: "real list \<Rightarrow> real \<Rightarrow> nat" where
  "x_new_index x v = min (length x - 1) (searchsorted_left (x_bds x) v)"

definition interp1d_nearest :: "real list \<Rightarrow> nat list \<Rightarrow> real list \<Rightarrow> error + nat list" where
  "interp1d_nearest x y x_new =
     (if x = [] \<or> length x \<noteq> length y then Inl ValueError
      else if list_ex (\<lambda>v. v < hd x \<or> last x < v) x_new then Inl ValueError
      else Inr (map (\<lambda>v. y ! x_new_index x v) x_new))"

text \<open>\<^verbatim>\<open>.astype(np.uint16)\<close> of a frame number: the value in 16 bits, wrapping around.\<close>

type_synonym uint16 = "16 word"

definition astype_uint16 :: "nat \<Rightarrow> uint16" where
  "astype_uint16 i = word_of_nat i"

text \<open>
  Images. A camera file holds decodable frames: \<open>CamFrame c k\<close> is frame \<open>k\<close> of camera
  \<open>c\<close>; \<open>Zeros\<close> is a buffer from \<^verbatim>\<open>np.zeros\<close>; \<open>Tiled qs\<close> is the canvas with quadrants
  \<open>qs\<close> scaled down to one frame.
\<close>

datatype image = Zeros | CamFrame nat nat | Tiled "image list"

text \<open>
  \<^verbatim>\<open>cap.set(cv2.CAP_PROP_POS_FRAMES, pos)\<close> followed by \<^verbatim>\<open>cap.read(img)\<close>. The Python
  binding of \<^verbatim>\<open>read\<close> returns the pair \<^verbatim>\<open>(retval, image)\<close>; the frame is decoded into the
  buffer passed in, which keeps its content when no frame can be read. The model returns
  \<open>retval\<close> and the content of the buffer after the call.
\<close>

definition VideoCapture_read :: "image list \<Rightarrow> nat \<Rightarrow> image \<Rightarrow> bool \<times> image" where
  "VideoCapture_read frames pos buf =
     (if pos < length frames then (True, frames ! pos) else (False, buf))"

text \<open>
  The truth value Python gives a tuple in \<^verbatim>\<open>assert ok\<close>: a tuple is true when it is not
  empty, and a pair has two components whatever they are.
\<close>

definition tuple_len :: "'a \<times> 'b \<Rightarrow> nat" where
  "tuple_len p = 2"

definition tuple_truth :: "'a \<times> 'b \<Rightarrow> bool" where
  "tuple_truth p \<longleftrightarrow> tuple_len p \<noteq> 0"

section \<open>The experiment folder\<close>

text \<open>
  One camera of the folder: the parsed timestamps of \<^verbatim>\<open>camN_<t>.h5\<close> (\<^verbatim>\<open>t_str\<close>) and the
  frames of \<^verbatim>\<open>camN_<t>.mp4\<close>.
\<close>

record camera =
  t_str :: "datetime list"
  mp4 :: "image list"

text \<open>
  The alignment file \<^verbatim>\<open>multicam_<t>.h5\<close>: three attributes and one dataset, each absent
  until it is written.
\<close>

record h5file =
  attr_t_start :: "datetime option"
  attr_t_end :: "datetime option"
  attr_fps :: "int option"
  ds_frame_nums :: "uint16 list list option"

definition empty_h5 :: h5file where
  "empty_h5 = \<lparr>attr_t_start = None, attr_t_end = None, attr_fps = None, ds_frame_nums = None\<rparr>"

record experiment_folder =
  experiment_base_folder :: string
  cams :: "camera list"
  multicam_mp4 :: "image list option"
  multicam_h5 :: "h5file option"

section \<open>generate\_multicam\_video\<close>

text \<open>
  Lines 28 to 38: the loop over the cameras. It collects the timestamps of each camera and
  folds the first ones with \<^verbatim>\<open>_max\<close> and the last ones with \<^verbatim>\<open>_min\<close>. Indexing an
  empty timestamp array raises IndexError.
\<close>

fun load_cameras ::
  "camera list \<Rightarrow> datetime list list \<times> datetime \<times> datetime \<Rightarrow>
     error + datetime list list \<times> datetime \<times> datetime" where
  "load_cameras [] acc = Inr acc"
| "load_cameras (c # cs) (camera_timestamps, t_latest_start, t_earliest_end) =
     (if t_str c = [] then Inl IndexError
      else load_cameras cs
             (camera_timestamps @ [t_str c],
              aux_max (hd (t_str c)) t_latest_start,
              aux_min (last (t_str c)) t_earliest_end))"

text \<open>Lines 43 to 46: one row of frame numbers per camera, cast to 16 bits.\<close>

fun frame_nums_rows ::
  "datetime list list \<Rightarrow> datetime \<Rightarrow> datetime list \<Rightarrow> error + uint16 list list" where
  "frame_nums_rows [] t_latest_start t_cam = Inr []"
| "frame_nums_rows (t # ts) t_latest_start t_cam =
     (case interp1d_nearest (time_to_float t t_latest_start) [0..<length t]
             (time_to_float t_cam t_latest_start) of
        Inl e \<Rightarrow> Inl e
      | Inr row \<Rightarrow>
          (case frame_nums_rows ts t_latest_start t_cam of
             Inl e \<Rightarrow> Inl e
           | Inr rows \<Rightarrow> Inr (map astype_uint16 row # rows)))"

text \<open>
  Lines 28 to 46 together: the virtual timeline \<open>t_cam\<close> and the table \<open>frame_nums\<close>.
  \<^verbatim>\<open>1.0/video_fps\<close> raises ZeroDivisionError for a zero rate.
\<close>

definition interpolate_time ::
  "camera list \<Rightarrow> int \<Rightarrow> error + datetime list \<times> uint16 list list" where
  "interpolate_time cs video_fps =
     (case load_cameras cs ([], datetime_min, datetime_max) of
        Inl e \<Rightarrow> Inl e
      | Inr (camera_timestamps, t_latest_start, t_earliest_end) \<Rightarrow>
          if video_fps = 0 then Inl ZeroDivisionError
          else
            (case date_range t_latest_start t_earliest_end
                    (timedelta_seconds (1 / real_of_int video_fps)) of
               Inl e \<Rightarrow> Inl e
             | Inr t_cam \<Rightarrow>
                 (case frame_nums_rows camera_timestamps t_latest_start t_cam of
                    Inl e \<Rightarrow> Inl e
                  | Inr frame_nums \<Rightarrow> Inr (t_cam, frame_nums))))"

text \<open>
  Lines 62 to 90: the state of the generation loop is the canvas \<open>rgb_data\<close> (its four
  quadrants), the frame buffer \<open>img\<close> and the frames appended to the output so far.
\<close>

record gen_state =
  rgb_data :: "image list"
  img :: image
  video_out :: "image list"

text \<open>
  Lines 66 to 77 for camera \<open>i\<close> at timeline position \<open>n\<close>: seek, read into \<open>img\<close>, assert,
  copy \<open>img\<close> into quadrant \<open>i\<close>.
\<close>

definition read_camera ::
  "camera list \<Rightarrow> uint16 list list \<Rightarrow> nat \<Rightarrow> nat \<Rightarrow> gen_state \<Rightarrow> error + gen_state" where
  "read_camera cs frame_nums n i s =
     (let ok = VideoCapture_read (mp4 (cs ! i)) (unat (frame_nums ! i ! n)) (img s) in
      if \<not> tuple_truth ok then Inl AssertionError
      else
        (let img' = snd ok in
         Inr (s\<lparr>rgb_data := (if i < 4 then (rgb_data s)[i := img'] else rgb_data s),
                img := img'\<rparr>)))"

fun read_cameras ::
  "camera list \<Rightarrow> uint16 list list \<Rightarrow> nat \<Rightarrow> nat list \<Rightarrow> gen_state \<Rightarrow> error + gen_state" where
  "read_cameras cs frame_nums n [] s = Inr s"
| "read_cameras cs frame_nums n (i # is) s =
     (case read_camera cs frame_nums n i s of
        Inl e \<Rightarrow> Inl e
      | Inr s' \<Rightarrow> read_cameras cs frame_nums n is s')"

text \<open>
  The loop over \<^verbatim>\<open>enumerate(t_cam)\<close>. \<open>t0\<close> is \<^verbatim>\<open>t_cam[0]\<close>; \<open>waitKey n\<close> is the key code
  that \<^verbatim>\<open>cv2.waitKey(1)\<close> returns after frame \<open>n\<close> has been shown. The result is the
  exception raised, if any, and the state reached.
\<close>

fun generate_frames ::
  "camera list \<Rightarrow> uint16 list list \<Rightarrow> datetime \<Rightarrow> real \<Rightarrow> real \<Rightarrow> bool \<Rightarrow> (nat \<Rightarrow> int) \<Rightarrow>
     (nat \<times> datetime) list \<Rightarrow> gen_state \<Rightarrow> error option \<times> gen_state" where
  "generate_frames cs frame_nums t0 t_start t_end visualize waitKey [] s = (None, s)"
| "generate_frames cs frame_nums t0 t_start t_end visualize waitKey ((n, t) # rest) s =
     (let curr_t = total_seconds (t - t0) in
      if curr_t < t_start \<or> (t_end > 0 \<and> curr_t > t_end)
      then generate_frames cs frame_nums t0 t_start t_end visualize waitKey rest s
      else
        (case read_cameras cs frame_nums n [0..<length frame_nums] s of
           Inl e \<Rightarrow> (Some e, s)
         | Inr s1 \<Rightarrow>
             (let out_img = Tiled (rgb_data s1);
                  s2 = s1\<lparr>img := out_img, video_out := video_out s1 @ [out_img]\<rparr>
              in if visualize \<and> waitKey n > 0 then (None, s2)
                 else generate_frames cs frame_nums t0 t_start t_end visualize waitKey rest s2)))"

text \<open>
  The name of the output video: \<^verbatim>\<open>experiment_base_folder.rsplit('/', 1)[-1]\<close> is the part
  after the last slash.
\<close>

definition rsplit_last :: "string \<Rightarrow> string" where
  "rsplit_last p = rev (takeWhile (\<lambda>c. c \<noteq> CHR ''/'') (rev p))"

definition video_out_filename :: "string \<Rightarrow> string" where
  "video_out_filename base = base @ ''/multicam_'' @ rsplit_last base @ ''.mp4''"

text \<open>
  The whole function, on the folder as a state. Creating the \<^verbatim>\<open>VideoWriter\<close> (line 50)
  creates the output video; opening the alignment file with mode \<^verbatim>\<open>'w'\<close> (line 55) creates
  it empty; the attributes and the dataset are then written one by one, and
  \<^verbatim>\<open>t_cam[0]\<close> raises IndexError on an empty timeline.
\<close>

definition generate_multicam_video ::
  "experiment_folder \<Rightarrow> real \<Rightarrow> real \<Rightarrow> int \<Rightarrow> bool \<Rightarrow> (nat \<Rightarrow> int) \<Rightarrow> bool \<Rightarrow>
     (error + string) \<times> experiment_folder" where
  "generate_multicam_video fs t_start t_end video_fps visualize waitKey overwrite =
     (if multicam_mp4 fs \<noteq> None \<and> \<not> overwrite
      then (Inr (video_out_filename (experiment_base_folder fs)), fs)
      else
        (case interpolate_time (cams fs) video_fps of
           Inl e \<Rightarrow> (Inl e, fs)
         | Inr (t_cam, frame_nums) \<Rightarrow>
             (let fs1 = fs\<lparr>multicam_mp4 := Some [], multicam_h5 := Some empty_h5\<rparr> in
              if t_cam = [] then (Inl IndexError, fs1)
              else
                (let h5 = \<lparr>attr_t_start = Some (hd t_cam), attr_t_end = Some (last t_cam),
                           attr_fps = Some video_fps, ds_frame_nums = Some frame_nums\<rparr>;
                     (err, s) = generate_frames (cams fs) frame_nums (hd t_cam) t_start t_end
                                  visualize waitKey (enumerate 0 t_cam)
                                  \<lparr>rgb_data = replicate 4 Zeros, img = Zeros, video_out = []\<rparr>;
                     fs2 = fs1\<lparr>multicam_mp4 := Some (video_out s), multicam_h5 := Some h5\<rparr>
                 in (case err of
                       Some e \<Rightarrow> (Inl e, fs2)
                     | None \<Rightarrow> (Inr (video_out_filename (experiment_base_folder fs)), fs2))))))"

section \<open>generate\_video: the timeline read back\<close>

text \<open>
  Lines 104 and 105: the multi-camera branch rebuilds \<open>t_cam\<close> from the attributes of the
  alignment file. A missing attribute raises KeyError. The stored rate is read back as a
  numpy integer: dividing by a zero one gives infinity, which \<^verbatim>\<open>timedelta\<close> refuses with
  OverflowError.
\<close>

definition read_t_cam :: "h5file \<Rightarrow> error + datetime list" where
  "read_t_cam h5_cam =
     (case attr_t_start h5_cam of
        None \<Rightarrow> Inl KeyError
      | Some t_start \<Rightarrow>
          (case attr_t_end h5_cam of
             None \<Rightarrow> Inl KeyError
           | Some t_end \<Rightarrow>
               (case attr_fps h5_cam of
                  None \<Rightarrow> Inl KeyError
                | Some fps \<Rightarrow>
                    if fps = 0 then Inl OverflowError
                    else date_range t_start t_end (timedelta_seconds (1 / real_of_int fps)))))"

section \<open>generate\_video: the interactive player\<close>

text \<open>
  The playback state of the loop of lines 163 to 246: the frame number \<open>n\<close> (here
  \<open>frame_n\<close>), the three flags, the weight-to-camera offset, and the calls made to
  \<^verbatim>\<open>cb_event_start_or_end\<close> so far.
\<close>

record player =
  frame_n :: int
  is_paused :: bool
  refresh_weight :: bool
  do_skip_frames :: bool
  weight_to_cam_t_offset :: datetime
  events :: "(bool \<times> datetime) list"

definition TIME_INCREMENT :: timedelta where
  "TIME_INCREMENT = timedelta_seconds (1 / 10)"

definition FRAME_INCREMENT :: int where
  "FRAME_INCREMENT = 8"

definition LEFT_RIGHT_MULTIPLIER :: int where
  "LEFT_RIGHT_MULTIPLIER = 10"

text \<open>Python indexing \<^verbatim>\<open>xs[i]\<close>: a negative index counts from the end.\<close>

definition py_index :: "'a list \<Rightarrow> int \<Rightarrow> error + 'a" where
  "py_index xs i =
     (let len = int (length xs); j = (if i < 0 then len + i else i) in
      if 0 \<le> j \<and> j < len then Inr (xs ! nat j) else Inl IndexError)"

text \<open>
  Modelled from the spec: \<^verbatim>\<open>video_in.set(cv2.CAP_PROP_POS_FRAMES, n)\<close> followed by
  \<^verbatim>\<open>int(video_in.get(cv2.CAP_PROP_POS_FRAMES))\<close>. OpenCV is not among the sources; the
  spec says of a position past the valid bounds that "it is clamped by the underlying
  stream to the nearest valid position". \<open>frame_count\<close> is the number of frames of the
  video.
\<close>

definition VideoCapture_set_get_pos :: "nat \<Rightarrow> int \<Rightarrow> int" where
  "VideoCapture_set_get_pos frame_count p = max 0 (min p (int frame_count))"

text \<open>
  Lines 201 to 241: the chain of \<^verbatim>\<open>if\<close>/\<^verbatim>\<open>elif\<close> on the key code \<open>k\<close>. \<open>cb\<close> says
  whether \<^verbatim>\<open>cb_event_start_or_end\<close> is not None. The result is whether the loop breaks,
  and the state.
\<close>

definition key_dispatch ::
  "bool \<Rightarrow> datetime list \<Rightarrow> int \<Rightarrow> player \<Rightarrow> error + bool \<times> player" where
  "key_dispatch cb t_cam k s0 =
     (let s = s0\<lparr>do_skip_frames := False, refresh_weight := False\<rparr> in
      if k = 63234 then
        Inr (False, s\<lparr>frame_n := frame_n s - LEFT_RIGHT_MULTIPLIER * FRAME_INCREMENT,
                        do_skip_frames := True, refresh_weight := True\<rparr>)
      else if k = 63235 then
        Inr (False, s\<lparr>frame_n := frame_n s + LEFT_RIGHT_MULTIPLIER * FRAME_INCREMENT,
                        do_skip_frames := True, refresh_weight := True\<rparr>)
      else if k = 63232 then
        Inr (False, s\<lparr>frame_n := frame_n s + FRAME_INCREMENT,
                        do_skip_frames := True, refresh_weight := True\<rparr>)
      else if k = 63233 then
        Inr (False, s\<lparr>frame_n := frame_n s - FRAME_INCREMENT,
                        do_skip_frames := True, refresh_weight := True\<rparr>)
      else if k = 97 then
        Inr (False, s\<lparr>weight_to_cam_t_offset :=
                          weight_to_cam_t_offset s - LEFT_RIGHT_MULTIPLIER * TIME_INCREMENT,
                        refresh_weight := True\<rparr>)
      else if k = 100 then
        Inr (False, s\<lparr>weight_to_cam_t_offset :=
                          weight_to_cam_t_offset s + LEFT_RIGHT_MULTIPLIER * TIME_INCREMENT,
                        refresh_weight := True\<rparr>)
      else if k = 119 then
        Inr (False, s\<lparr>weight_to_cam_t_offset := weight_to_cam_t_offset s - TIME_INCREMENT,
                        refresh_weight := True\<rparr>)
      else if k = 115 then
        Inr (False, s\<lparr>weight_to_cam_t_offset := weight_to_cam_t_offset s + TIME_INCREMENT,
                        refresh_weight := True\<rparr>)
      else if k = 98 \<and> cb then
        (case py_index t_cam (frame_n s) of
           Inl e \<Rightarrow> Inl e
         | Inr t \<Rightarrow> Inr (False, s\<lparr>events := events s @ [(True, t)]\<rparr>))
      else if k = 110 \<and> cb then
        (case py_index t_cam (frame_n s) of
           Inl e \<Rightarrow> Inl e
         | Inr t \<Rightarrow> Inr (False, s\<lparr>events := events s @ [(False, t)]\<rparr>))
      else if k = 32 then Inr (False, s\<lparr>is_paused := \<not> is_paused s\<rparr>)
      else if k = 27 \<or> (k > 0 \<and> \<not> cb) then Inr (True, s)
      else Inr (False, s))"

text \<open>
  Lines 200 to 246: the key is dispatched; unless the loop breaks, \<open>refresh_weight\<close> is
  updated and, after a frame skip, the stream is positioned and \<open>n\<close> is read back from it.
\<close>

definition key_command ::
  "bool \<Rightarrow> datetime list \<Rightarrow> nat \<Rightarrow> int \<Rightarrow> player \<Rightarrow> error + bool \<times> player" where
  "key_command cb t_cam frame_count k s0 =
     (case key_dispatch cb t_cam k s0 of
        Inl e \<Rightarrow> Inl e
      | Inr (brk, s) \<Rightarrow>
          if brk then Inr (True, s)
          else
            (let s1 = s\<lparr>refresh_weight := refresh_weight s \<or> \<not> is_paused s\<rparr> in
             if do_skip_frames s1
             then Inr (False, s1\<lparr>frame_n := VideoCapture_set_get_pos frame_count (frame_n s1)\<rparr>)
             else Inr (False, s1)))"

text \<open>
  Lines 168 to 171: unless paused, the loop advances \<open>n\<close> and reads the next frame of
  \<open>video_in\<close> (its frames and its position) into the buffer, then asserts on what
  \<^verbatim>\<open>read\<close> returned.
\<close>

definition read_next_frame ::
  "image list \<Rightarrow> nat \<Rightarrow> image \<Rightarrow> player \<Rightarrow> error + player \<times> nat \<times> image" where
  "read_next_frame frames pos buf s =
     (if \<not> is_paused s \<or> do_skip_frames s then
        (let s' = s\<lparr>frame_n := frame_n s + 1\<rparr>;
             ok = VideoCapture_read frames pos buf
         in if \<not> tuple_truth ok then Inl AssertionError
            else Inr (s', (if fst ok then pos + 1 else pos), snd ok))
      else Inr (s, pos, buf))"

text \<open>
  The key table as section 6 of the specification words it, for comparison with
  \<open>key_dispatch\<close>: the keys bound to a command, and "escape or any unrecognized key = exit
  (suppressed when an event callback is configured)".
\<close>

definition spec_bound_key :: "bool \<Rightarrow> int \<Rightarrow> bool" where
  "spec_bound_key cb k \<longleftrightarrow>
     k \<in> {32, 63232, 63233, 63234, 63235, 97, 100, 119, 115} \<or> (cb \<and> k \<in> {98, 110})"

definition spec_exit :: "bool \<Rightarrow> int \<Rightarrow> bool" where
  "spec_exit cb k \<longleftrightarrow> (k = 27 \<or> \<not> spec_bound_key cb k) \<and> \<not> cb"

text \<open>
  The change that the four arrow-key branches of \<open>key_dispatch\<close> make to \<open>n\<close>: left and
  right move by \<open>LEFT_RIGHT_MULTIPLIER * FRAME_INCREMENT\<close>, down and up by
  \<open>FRAME_INCREMENT\<close>.
\<close>

definition frame_step :: "int \<Rightarrow> int" where
  "frame_step k =
     (if k = 63234 then - (LEFT_RIGHT_MULTIPLIER * FRAME_INCREMENT)
      else if k = 63235 then LEFT_RIGHT_MULTIPLIER * FRAME_INCREMENT
      else if k = 63232 then FRAME_INCREMENT
      else - FRAME_INCREMENT)"

section \<open>Example folders\<close>

text \<open>
  The end-to-end example of the specification, with all four cameras: two cameras with
  timestamps 0.0, 1.0, 2.0 s and two with 0.1, 1.1, 2.1 s, each with its three frames.
\<close>

definition cam_a :: "nat \<Rightarrow> camera" where
  "cam_a c = \<lparr>t_str = [0, 1000000, 2000000], mp4 = [CamFrame c 0, CamFrame c 1, CamFrame c 2]\<rparr>"

definition cam_b :: "nat \<Rightarrow> camera" where
  "cam_b c = \<lparr>t_str = [100000, 1100000, 2100000],
              mp4 = [CamFrame c 0, CamFrame c 1, CamFrame c 2]\<rparr>"

definition example_cams :: "camera list" where
  "example_cams = [cam_a 1, cam_b 2, cam_a 3, cam_b 4]"

definition example_folder :: experiment_folder where
  "example_folder =
     \<lparr>experiment_base_folder = ''Dataset/2019-03-31_00-00-01'', cams = example_cams,
      multicam_mp4 = None, multicam_h5 = None\<rparr>"



text \<open>A playback state: frame 5 is on screen, the player is running.\<close>

definition player0 :: player where
  "player0 = \<lparr>frame_n = 5, is_paused = False, refresh_weight = True, do_skip_frames = False,
              weight_to_cam_t_offset = 13000000, events = []\<rparr>"

text \<open>\<^verbatim>\<open>cv2.waitKey(1)\<close> when no key is ever pressed.\<close>

definition no_key :: "nat \<Rightarrow> int" where
  "no_key n = - 1"

text \<open>
  A folder without overlap: cameras 1 and 2 recorded from 0 to 2 s, cameras 3 and 4 from
  2 to 3 s, so the latest start equals the earliest end.
\<close>

definition late_cam :: "nat \<Rightarrow> camera" where
  "late_cam c = \<lparr>t_str = [2000000, 3000000], mp4 = [CamFrame c 0, CamFrame c 1]\<rparr>"

definition zero_overlap_folder :: experiment_folder where
  "zero_overlap_folder =
     \<lparr>experiment_base_folder = ''Dataset/2019-03-31_00-00-02'',
      cams = [cam_a 1, cam_a 2, late_cam 3, late_cam 4],
      multicam_mp4 = None, multicam_h5 = None\<rparr>"

text \<open>
  A folder whose first camera has three timestamps and a video of one frame only: frame 1
  cannot be read.
\<close>

definition short_cam :: "nat \<Rightarrow> camera" where
  "short_cam c = \<lparr>t_str = [0, 1000000, 2000000], mp4 = [CamFrame c 0]\<rparr>"

definition short_cams :: "camera list" where
  "short_cams = [short_cam 1, cam_a 2, cam_a 3, cam_a 4]"

definition short_folder :: experiment_folder where
  "short_folder =
     \<lparr>experiment_base_folder = ''Dataset/2019-03-31_00-00-03'', cams = short_cams,
      multicam_mp4 = None, multicam_h5 = None\<rparr>"

text \<open>What a run on \<open>example_folder\<close> at one frame per second writes.\<close>

definition example_h5 :: h5file where
  "example_h5 = \<lparr>attr_t_start = Some 100000, attr_t_end = Some 1100000, attr_fps = Some 1,
                  ds_frame_nums = Some [[0, 1], [0, 1], [0, 1], [0, 1]]\<rparr>"

definition example_mp4 :: "image list" where
  "example_mp4 = [Tiled [CamFrame 1 0, CamFrame 2 0, CamFrame 3 0, CamFrame 4 0],
                  Tiled [CamFrame 1 1, CamFrame 2 1, CamFrame 3 1, CamFrame 4 1]]"


text \<open>
  A long recording: every camera has 65538 frames, one every 40 ms. \<open>long_t_cam\<close> and
  \<open>long_row\<close> are the timeline and the row of the table at 25 frames per second.
\<close>

definition long_cam :: camera where
  "long_cam = \<lparr>t_str = map (\<lambda>i. int i * 40000) [0..<65538],
                mp4 = map (CamFrame 1) [0..<65538]\<rparr>"

definition long_cams :: "camera list" where
  "long_cams = [long_cam, long_cam, long_cam, long_cam]"

definition long_t_cam :: "datetime list" where
  "long_t_cam = map (\<lambda>k. int k * 40000) [0..<65537]"

definition long_row :: "uint16 list" where
  "long_row = map astype_uint16 [0..<65537]"

section \<open>Properties of the library operations\<close>

lemma length_x_bds: "length (x_bds x) = length x - 1"
  by (simp add: x_bds_def Let_def)

lemma nth_x_bds:
  assumes "Suc i < length x"
  shows "x_bds x ! i = x ! Suc i / 2 + x ! i / 2"
  using assms by (simp add: x_bds_def Let_def nth_tl nth_butlast)

lemma searchsorted_left_le: "searchsorted_left a v \<le> length a"
  by (simp add: searchsorted_left_def length_takeWhile_le)

lemma searchsorted_left_below:
  assumes "i < searchsorted_left a v"
  shows "a ! i < v"
proof -
  from assms have "i < length (takeWhile (\<lambda>b. b < v) a)"
    by (simp add: searchsorted_left_def)
  then have "takeWhile (\<lambda>b. b < v) a ! i \<in> set (takeWhile (\<lambda>b. b < v) a)"
    by (rule nth_mem)
  then have "takeWhile (\<lambda>b. b < v) a ! i < v"
    by (auto dest: set_takeWhileD)
  with \<open>i < length (takeWhile (\<lambda>b. b < v) a)\<close> show ?thesis
    by (simp add: takeWhile_nth)
qed

lemma searchsorted_left_at:
  assumes "searchsorted_left a v < length a"
  shows "v \<le> a ! searchsorted_left a v"
  using assms nth_length_takeWhile [of "\<lambda>b. b < v" a]
  by (simp add: searchsorted_left_def not_less)

lemma searchsorted_left_mono:
  assumes "v \<le> w"
  shows "searchsorted_left a v \<le> searchsorted_left a w"
  unfolding searchsorted_left_def
proof (induction a)
  case Nil
  show ?case by simp
next
  case (Cons b a)
  with assms show ?case by auto
qed

lemma x_new_index_eq: "x_new_index x v = searchsorted_left (x_bds x) v"
  using searchsorted_left_le [of "x_bds x" v]
  by (simp add: x_new_index_def length_x_bds)

lemma x_new_index_less: "x \<noteq> [] \<Longrightarrow> x_new_index x v < length x"
  by (cases x) (simp_all add: x_new_index_def)

lemma x_new_index_before:
  assumes "sorted x" and "j < x_new_index x v"
  shows "x ! j + x ! x_new_index x v < 2 * v"
proof -
  let ?s = "x_new_index x v"
  from assms(2) obtain p where p: "?s = Suc p" and jp: "j \<le> p"
    by (cases ?s) auto
  have sl: "?s \<le> length x - 1"
    by (simp add: x_new_index_def)
  with p have lt: "Suc p < length x" by simp
  have "p < searchsorted_left (x_bds x) v"
    using p by (simp add: x_new_index_eq)
  then have "x_bds x ! p < v"
    by (rule searchsorted_left_below)
  with lt have mid: "x ! Suc p / 2 + x ! p / 2 < v"
    by (simp add: nth_x_bds)
  from assms(1) jp lt have "x ! j \<le> x ! p"
    by (simp add: sorted_nth_mono)
  with mid p show ?thesis by simp
qed

lemma x_new_index_after:
  assumes "sorted x" and "x_new_index x v < j" and "j < length x"
  shows "2 * v \<le> x ! x_new_index x v + x ! j"
proof -
  let ?s = "x_new_index x v"
  from assms have lt: "Suc ?s < length x" by simp
  then have "searchsorted_left (x_bds x) v < length (x_bds x)"
    by (simp add: length_x_bds x_new_index_eq [symmetric])
  then have "v \<le> x_bds x ! ?s"
    using searchsorted_left_at [of "x_bds x" v] by (simp add: x_new_index_eq)
  with lt have mid: "v \<le> x ! Suc ?s / 2 + x ! ?s / 2"
    by (simp add: nth_x_bds)
  from assms have "x ! Suc ?s \<le> x ! j"
    by (simp add: sorted_nth_mono)
  with mid show ?thesis by simp
qed

lemma x_new_index_closest:
  assumes "sorted x" and "j < length x"
  shows "\<bar>v - x ! x_new_index x v\<bar> \<le> \<bar>v - x ! j\<bar>"
proof -
  let ?s = "x_new_index x v"
  consider "j < ?s" | "j = ?s" | "?s < j" by linarith
  then show ?thesis
  proof cases
    case 1
    from x_new_index_before [OF assms(1) 1] have a: "x ! j + x ! ?s < 2 * v" .
    from assms(2) have "x \<noteq> []" by auto
    then have "?s < length x" by (rule x_new_index_less)
    with assms(1) 1 have "x ! j \<le> x ! ?s"
      by (simp add: sorted_nth_mono)
    with a show ?thesis by linarith
  next
    case 2
    then show ?thesis by simp
  next
    case 3
    from x_new_index_after [OF assms(1) 3 assms(2)] have a: "2 * v \<le> x ! ?s + x ! j" .
    from assms 3 have "x ! ?s \<le> x ! j"
      by (simp add: sorted_nth_mono)
    with a show ?thesis by linarith
  qed
qed


lemma date_range_loop_nth:
  "date_range_loop t t_end d = Inr ts \<Longrightarrow> k < length ts \<Longrightarrow> ts ! k = t + int k * d"
proof (induction t t_end d arbitrary: ts k rule: date_range_loop.induct)
  case (1 t t_end d)
  show ?case
  proof (cases "t < t_end \<and> d \<noteq> 0")
    case False
    with "1.prems" show ?thesis
      by (simp add: date_range_loop.simps [of t t_end d])
  next
    case True
    with "1.prems"(1) obtain ts' where
      ok: "\<not> (t + d < datetime_min \<or> datetime_max < t + d)"
      and rec: "date_range_loop (t + d) t_end d = Inr ts'" and ts: "ts = t # ts'"
      by (auto simp: date_range_loop.simps [of t t_end d] split: if_splits sum.splits)
    show ?thesis
    proof (cases k)
      case 0
      with ts show ?thesis by simp
    next
      case (Suc k')
      with "1.prems"(2) ts have "k' < length ts'" by simp
      from "1.IH" [OF True ok rec this] Suc ts show ?thesis
        by (simp add: algebra_simps)
    qed
  qed
qed

lemma date_range_loop_less:
  "date_range_loop t t_end d = Inr ts \<Longrightarrow> x \<in> set ts \<Longrightarrow> x < t_end"
proof (induction t t_end d arbitrary: ts rule: date_range_loop.induct)
  case (1 t t_end d)
  show ?case
  proof (cases "t < t_end \<and> d \<noteq> 0")
    case False
    with "1.prems" show ?thesis
      by (simp add: date_range_loop.simps [of t t_end d])
  next
    case True
    with "1.prems"(1) obtain ts' where
      ok: "\<not> (t + d < datetime_min \<or> datetime_max < t + d)"
      and rec: "date_range_loop (t + d) t_end d = Inr ts'" and ts: "ts = t # ts'"
      by (auto simp: date_range_loop.simps [of t t_end d] split: if_splits sum.splits)
    from "1.prems"(2) ts have "x = t \<or> x \<in> set ts'" by simp
    then show ?thesis
    proof
      assume "x = t" with True show ?thesis by simp
    next
      assume "x \<in> set ts'"
      from "1.IH" [OF True ok rec this] show ?thesis .
    qed
  qed
qed

lemma date_range_loop_closed:
  assumes "0 < d" and "t_end + d \<le> datetime_max" and "datetime_min \<le> t"
  shows "date_range_loop t t_end d =
           Inr (map (\<lambda>k. t + int k * d) [0..<nat ((t_end - t + d - 1) div d)])"
  using assms
proof (induction t t_end d rule: date_range_loop.induct)
  case (1 t t_end d)
  show ?case
  proof (cases "t < t_end")
    case False
    then have "t_end - t + d - 1 \<le> d - 1" by simp
    then have "(t_end - t + d - 1) div d \<le> (d - 1) div d"
      using "1.prems"(1) by (rule zdiv_mono1)
    also have "(d - 1) div d = 0"
      using "1.prems"(1) by (simp add: div_pos_pos_trivial)
    finally have "nat ((t_end - t + d - 1) div d) = 0" by simp
    with False show ?thesis
      by (simp add: date_range_loop.simps [of t t_end d])
  next
    case True
    with "1.prems" have c: "t < t_end \<and> d \<noteq> 0" by simp
    from True "1.prems" have ok: "\<not> (t + d < datetime_min \<or> datetime_max < t + d)" by simp
    from "1.prems" have "datetime_min \<le> t + d" by simp
    from "1.IH" [OF c ok "1.prems"(1,2) this]
    have rec: "date_range_loop (t + d) t_end d =
                 Inr (map (\<lambda>k. t + d + int k * d) [0..<nat ((t_end - (t + d) + d - 1) div d)])" .
    have q: "0 \<le> (t_end - t - 1) div d"
      using True "1.prems"(1) by (simp add: pos_imp_zdiv_nonneg_iff)
    have "(t_end - t + d - 1) div d = ((t_end - t - 1) + d) div d" by (simp add: algebra_simps)
    also have "\<dots> = (t_end - t - 1) div d + 1"
      using "1.prems"(1) by simp
    finally have n: "nat ((t_end - t + d - 1) div d) = Suc (nat ((t_end - t - 1) div d))"
      using q by simp
    have "t_end - (t + d) + d - 1 = t_end - t - 1" by simp
    with rec c ok n show ?thesis
      by (simp add: date_range_loop.simps [of t t_end d] map_upt_Suc algebra_simps del: upt_Suc)
  qed
qed

section \<open>Properties of the synchronizer\<close>

lemma aux_max_eq: "aux_max a b = max a b"
  by (simp add: aux_max_def max_def)

lemma aux_min_eq: "aux_min a b = min a b"
  by (simp add: aux_min_def min_def)

lemma Max_insert_max: "finite A \<Longrightarrow> Max (insert (max l h) A) = max (l::int) (Max (insert h A))"
  by (cases "A = {}") (simp_all add: max.assoc)

lemma Min_insert_min: "finite A \<Longrightarrow> Min (insert (min e h) A) = min (e::int) (Min (insert h A))"
  by (cases "A = {}") (simp_all add: min.assoc)

lemma load_cameras_Inr:
  "load_cameras cs (a, l, e) = Inr (tss, L, E) \<Longrightarrow>
     tss = a @ map t_str cs \<and> (\<forall>c\<in>set cs. t_str c \<noteq> []) \<and>
     L = Max (insert l ((\<lambda>c. hd (t_str c)) ` set cs)) \<and>
     E = Min (insert e ((\<lambda>c. last (t_str c)) ` set cs))"
proof (induction cs arbitrary: a l e)
  case Nil
  then show ?case by simp
next
  case (Cons c cs)
  let ?H = "(\<lambda>c. hd (t_str c)) ` set cs" and ?T = "(\<lambda>c. last (t_str c)) ` set cs"
  from Cons.prems have ne: "t_str c \<noteq> []"
    by (simp split: if_splits)
  with Cons.prems have
    "load_cameras cs (a @ [t_str c], aux_max (hd (t_str c)) l, aux_min (last (t_str c)) e) =
       Inr (tss, L, E)"
    by simp
  from Cons.IH [OF this] have
    tss: "tss = a @ t_str c # map t_str cs" and all: "\<forall>c\<in>set cs. t_str c \<noteq> []"
    and L: "L = Max (insert (max (hd (t_str c)) l) ?H)"
    and E: "E = Min (insert (min (last (t_str c)) e) ?T)"
    by (simp_all add: aux_max_eq aux_min_eq)
  have "Max (insert (max (hd (t_str c)) l) ?H) = Max (insert l (insert (hd (t_str c)) ?H))"
    by (simp add: Max_insert_max max.commute del: Max_insert)
       (simp add: max.commute)
  moreover
  have "Min (insert (min (last (t_str c)) e) ?T) = Min (insert e (insert (last (t_str c)) ?T))"
    by (simp add: Min_insert_min min.commute del: Min_insert)
       (simp add: min.commute)
  ultimately show ?case
    using tss all ne L E by simp
qed

lemma load_cameras_total:
  "\<forall>c\<in>set cs. t_str c \<noteq> [] \<Longrightarrow> \<exists>r. load_cameras cs (a, l, e) = Inr r"
  by (induction cs arbitrary: a l e) simp_all

lemma interp1d_nearest_Inr:
  assumes "interp1d_nearest x [0..<length x] x_new = Inr row"
  shows "x \<noteq> [] \<and> row = map (x_new_index x) x_new"
proof -
  from assms have ne: "x \<noteq> []"
    by (auto simp: interp1d_nearest_def split: if_splits)
  have "[0..<length x] ! x_new_index x v = x_new_index x v" for v
    using x_new_index_less [OF ne, of v] by simp
  with assms ne show ?thesis
    by (auto simp: interp1d_nearest_def split: if_splits)
qed

lemma frame_nums_rows_Inr:
  "frame_nums_rows tss L t_cam = Inr rows \<Longrightarrow>
     length rows = length tss \<and>
     (\<forall>i<length tss. tss ! i \<noteq> [] \<and>
        rows ! i = map (\<lambda>tc. astype_uint16
                      (x_new_index (time_to_float (tss ! i) L) (total_seconds (tc - L)))) t_cam)"
proof (induction tss arbitrary: rows)
  case Nil
  then show ?case by simp
next
  case (Cons t tss)
  from Cons.prems obtain row rows' where
    r: "interp1d_nearest (time_to_float t L) [0..<length t] (time_to_float t_cam L) = Inr row"
    and rs: "frame_nums_rows tss L t_cam = Inr rows'"
    and eq: "rows = map astype_uint16 row # rows'"
    by (auto split: sum.splits)
  have len: "length t = length (time_to_float t L)"
    by (simp add: time_to_float_def)
  from r have "time_to_float t L \<noteq> [] \<and>
      row = map (x_new_index (time_to_float t L)) (time_to_float t_cam L)"
    unfolding len by (rule interp1d_nearest_Inr)
  then have t: "t \<noteq> []"
    and row: "map astype_uint16 row =
      map (\<lambda>tc. astype_uint16 (x_new_index (time_to_float t L) (total_seconds (tc - L)))) t_cam"
    by (simp_all add: time_to_float_def)
  from Cons.IH [OF rs] eq t row show ?case
    by (auto simp: nth_Cons split: nat.splits)
qed

lemma interpolate_time_Inr:
  assumes "interpolate_time cs video_fps = Inr (t_cam, frame_nums)"
  obtains L E where
    "load_cameras cs ([], datetime_min, datetime_max) = Inr (map t_str cs, L, E)"
    and "video_fps \<noteq> 0"
    and "date_range L E (timedelta_seconds (1 / real_of_int video_fps)) = Inr t_cam"
    and "frame_nums_rows (map t_str cs) L t_cam = Inr frame_nums"
proof -
  from assms obtain tss L E where
    l: "load_cameras cs ([], datetime_min, datetime_max) = Inr (tss, L, E)"
    and f: "video_fps \<noteq> 0"
    and d: "date_range L E (timedelta_seconds (1 / real_of_int video_fps)) = Inr t_cam"
    and r: "frame_nums_rows tss L t_cam = Inr frame_nums"
    by (auto simp: interpolate_time_def split: sum.splits if_splits prod.splits)
  from load_cameras_Inr [OF l] have "tss = map t_str cs" by simp
  with l f d r that show ?thesis by blast
qed


lemma nth_time_to_float:
  "j < length ts \<Longrightarrow> time_to_float ts L ! j = total_seconds (ts ! j - L)"
  by (simp add: time_to_float_def)




lemma x_new_index_time_less:
  "ts \<noteq> [] \<Longrightarrow> x_new_index (time_to_float ts L) v < length ts"
  using x_new_index_less [of "time_to_float ts L" v] by (simp add: time_to_float_def)



lemma unat_astype_uint16: "unat (astype_uint16 i) = i mod 65536"
  by (simp add: astype_uint16_def unat_of_nat)


text \<open>The definitions that evaluate a run of the synchronizer on a concrete folder.\<close>

lemmas run_simps =
  interpolate_time_def aux_max_def aux_min_def datetime_min_def datetime_max_def
  date_range_def date_range_loop.simps timedelta_seconds_def round_half_even_def
  total_seconds_def interp1d_nearest_def x_new_index_def time_to_float_def x_bds_def
  searchsorted_left_def astype_uint16_def

lemma example_run:
  "interpolate_time example_cams 1 =
     Inr ([100000, 1100000], [[0, 1], [0, 1], [0, 1], [0, 1]])"
  by (simp add: run_simps example_cams_def cam_a_def cam_b_def)


lemma replicate_4: "replicate 4 x = [x, x, x, x]"
  by (simp add: numeral_eq_Suc)

lemmas video_simps = replicate_4
  generate_multicam_video_def read_camera_def VideoCapture_read_def tuple_truth_def
  tuple_len_def video_out_filename_def rsplit_last_def total_seconds_def Let_def


lemma example_video:
  "generate_multicam_video example_folder 0 (- 1) 1 False no_key False =
     (Inr ''Dataset/2019-03-31_00-00-01/multicam_2019-03-31_00-00-01.mp4'',
      example_folder\<lparr>multicam_mp4 := Some example_mp4, multicam_h5 := Some example_h5\<rparr>)"
  by (simp add: video_simps example_run example_folder_def example_h5_def example_mp4_def)
     (simp add: example_cams_def cam_a_def cam_b_def)

lemma short_run:
  "interpolate_time short_cams 1 = Inr ([0, 1000000], [[0, 1], [0, 1], [0, 1], [0, 1]])"
  by (simp add: run_simps short_cams_def short_cam_def cam_a_def)

lemma read_next_frame_past_end:
  "read_next_frame [CamFrame 1 0] 1 Zeros player0 = Inr (player0\<lparr>frame_n := 6\<rparr>, 1, Zeros)"
  by (simp add: read_next_frame_def VideoCapture_read_def tuple_truth_def tuple_len_def
        player0_def Let_def)

lemma zero_overlap_run:
  "interpolate_time (cams zero_overlap_folder) 25 = Inr ([], [[], [], [], []])"
  by (simp add: run_simps zero_overlap_folder_def late_cam_def cam_a_def)

lemma frame_nums_rows_empty:
  "\<forall>t\<in>set tss. t \<noteq> [] \<Longrightarrow> frame_nums_rows tss L [] = Inr (map (\<lambda>t. []) tss)"
  by (induction tss) (simp_all add: interp1d_nearest_def time_to_float_def)

lemma interpolate_time_no_overlap:
  assumes load: "load_cameras cs ([], datetime_min, datetime_max) = Inr (tss, L, E)"
    and "E \<le> L" and "video_fps \<noteq> 0"
    and "timedelta_seconds (1 / real_of_int video_fps) \<noteq> 0"
  shows "interpolate_time cs video_fps = Inr ([], map (\<lambda>t. []) tss)"
proof -
  from load_cameras_Inr [OF load] have "\<forall>t\<in>set tss. t \<noteq> []" by simp
  then have rows: "frame_nums_rows tss L [] = Inr (map (\<lambda>t. []) tss)"
    by (rule frame_nums_rows_empty)
  from assms(2,4) have "date_range L E (timedelta_seconds (1 / real_of_int video_fps)) = Inr []"
    by (simp add: date_range_def total_seconds_def date_range_loop.simps)
  with load rows assms(3) show ?thesis
    by (simp add: interpolate_time_def)
qed


lemma round_half_even_nonneg: "0 \<le> x \<Longrightarrow> 0 \<le> round_half_even x"
  by (auto simp: round_half_even_def Let_def)

lemma timedelta_seconds_nonneg: "0 < video_fps \<Longrightarrow> 0 \<le> timedelta_seconds (1 / real_of_int video_fps)"
  by (simp add: timedelta_seconds_def round_half_even_nonneg)


lemma date_range_Inr:
  assumes "date_range t_start t_end d = Inr ts"
  shows "d \<noteq> 0 \<and> date_range_loop t_start t_end d = Inr ts"
  using assms by (auto simp: date_range_def total_seconds_def split: if_splits)

lemma date_range_loop_hd:
  assumes "date_range_loop t t_end d = Inr ts" and "t < t_end" and "d \<noteq> 0"
  shows "ts \<noteq> [] \<and> hd ts = t"
  using assms
  by (auto simp: date_range_loop.simps [of t t_end d] split: if_splits sum.splits)


lemma date_range_loop_sorted:
  assumes "date_range_loop t t_end d = Inr ts" and "0 < d"
  shows "sorted ts"
proof -
  have "ts ! i \<le> ts ! j" if "i \<le> j" and "j < length ts" for i j
  proof -
    from that have "i < length ts" by simp
    with assms(1) that have "ts ! i = t + int i * d" and "ts ! j = t + int j * d"
      by (simp_all add: date_range_loop_nth)
    with that(1) assms(2) show ?thesis
      by (simp add: mult_right_mono)
  qed
  then show ?thesis by (simp add: sorted_iff_nth_mono)
qed



lemma x_new_index_mono: "v \<le> w \<Longrightarrow> x_new_index x v \<le> x_new_index x w"
  unfolding x_new_index_def
  using searchsorted_left_mono [of v w "x_bds x"] by (simp add: min.coboundedI2)

lemma frame_nums_row:
  assumes "interpolate_time cs video_fps = Inr (t_cam, frame_nums)" and "i < length cs"
  obtains L E where
    "load_cameras cs ([], datetime_min, datetime_max) = Inr (map t_str cs, L, E)"
    and "date_range L E (timedelta_seconds (1 / real_of_int video_fps)) = Inr t_cam"
    and "t_str (cs ! i) \<noteq> []"
    and "frame_nums ! i =
           map (\<lambda>tc. astype_uint16 (x_new_index (time_to_float (t_str (cs ! i)) L)
                                      (total_seconds (tc - L)))) t_cam"
proof -
  from assms(1) obtain L E where
    l: "load_cameras cs ([], datetime_min, datetime_max) = Inr (map t_str cs, L, E)"
    and d: "date_range L E (timedelta_seconds (1 / real_of_int video_fps)) = Inr t_cam"
    and r: "frame_nums_rows (map t_str cs) L t_cam = Inr frame_nums"
    by (rule interpolate_time_Inr)
  from frame_nums_rows_Inr [OF r] assms(2)
  have "t_str (cs ! i) \<noteq> []"
    "frame_nums ! i =
       map (\<lambda>tc. astype_uint16 (x_new_index (time_to_float (t_str (cs ! i)) L)
                                  (total_seconds (tc - L)))) t_cam"
    by simp_all
  with l d that show ?thesis by blast
qed

lemma x_new_index_exact:
  assumes "sorted_wrt (<) x" and "k < length x"
  shows "x_new_index x (x ! k) = k"
proof -
  from assms(1) have s: "sorted x" and d: "distinct x"
    by (simp_all add: strict_sorted_iff)
  from assms(2) have "x \<noteq> []" by auto
  then have l: "x_new_index x (x ! k) < length x" by (rule x_new_index_less)
  from x_new_index_closest [OF s assms(2), of "x ! k"]
  have "x ! x_new_index x (x ! k) = x ! k" by simp
  with d l assms(2) show ?thesis
    by (simp add: nth_eq_iff_index_eq)
qed

lemma frame_nums_rows_total:
  assumes "\<forall>t\<in>set tss. t \<noteq> [] \<and> (\<forall>tc\<in>set t_cam. hd t \<le> tc \<and> tc \<le> last t)"
  shows "frame_nums_rows tss L t_cam =
           Inr (map (\<lambda>t. map (\<lambda>tc. astype_uint16
                  (x_new_index (time_to_float t L) (total_seconds (tc - L)))) t_cam) tss)"
  using assms
proof (induction tss)
  case Nil
  show ?case by simp
next
  case (Cons t tss)
  let ?x = "time_to_float t L"
  from Cons.prems have ne: "t \<noteq> []" and b: "\<forall>tc\<in>set t_cam. hd t \<le> tc \<and> tc \<le> last t"
    by simp_all
  from ne have x: "?x \<noteq> []" "length ?x = length t"
    "hd ?x = total_seconds (hd t - L)" "last ?x = total_seconds (last t - L)"
    by (simp_all add: time_to_float_def hd_map last_map)
  have "\<not> (v < hd ?x \<or> last ?x < v)" if "v \<in> set (time_to_float t_cam L)" for v
  proof -
    from that obtain tc where tc: "tc \<in> set t_cam" and v: "v = total_seconds (tc - L)"
      by (auto simp: time_to_float_def)
    from b tc have "hd t \<le> tc" and "tc \<le> last t" by simp_all
    then show ?thesis
      unfolding v x(3,4) by (simp add: total_seconds_def divide_right_mono)
  qed
  then have "\<not> list_ex (\<lambda>v. v < hd ?x \<or> last ?x < v) (time_to_float t_cam L)"
    unfolding list_ex_iff by blast
  moreover have "[0..<length t] ! x_new_index ?x v = x_new_index ?x v" for v
    using x_new_index_time_less [OF ne, of L v] by simp
  ultimately have
    "interp1d_nearest ?x [0..<length t] (time_to_float t_cam L) =
       Inr (map (\<lambda>tc. x_new_index ?x (total_seconds (tc - L))) t_cam)"
    using x by (simp add: interp1d_nearest_def time_to_float_def)
  moreover from Cons have
    "frame_nums_rows tss L t_cam =
       Inr (map (\<lambda>t. map (\<lambda>tc. astype_uint16
              (x_new_index (time_to_float t L) (total_seconds (tc - L)))) t_cam) tss)"
    by simp
  ultimately show ?case by simp
qed

lemma interpolate_time_total:
  assumes load: "load_cameras cs ([], datetime_min, datetime_max) = Inr (tss, L, E)"
    and fps: "video_fps \<noteq> 0"
    and d: "0 < timedelta_seconds (1 / real_of_int video_fps)"
    and hi: "E + timedelta_seconds (1 / real_of_int video_fps) \<le> datetime_max"
    and lo: "datetime_min \<le> L"
  shows "interpolate_time cs video_fps =
           Inr (map (\<lambda>k. L + int k * timedelta_seconds (1 / real_of_int video_fps))
                  [0..<nat ((E - L + timedelta_seconds (1 / real_of_int video_fps) - 1)
                         div timedelta_seconds (1 / real_of_int video_fps))],
                map (\<lambda>t. map (\<lambda>tc. astype_uint16
                       (x_new_index (time_to_float t L) (total_seconds (tc - L))))
                     (map (\<lambda>k. L + int k * timedelta_seconds (1 / real_of_int video_fps))
                        [0..<nat ((E - L + timedelta_seconds (1 / real_of_int video_fps) - 1)
                               div timedelta_seconds (1 / real_of_int video_fps))]))
                  tss)"
proof -
  let ?d = "timedelta_seconds (1 / real_of_int video_fps)"
  let ?t_cam = "map (\<lambda>k. L + int k * ?d) [0..<nat ((E - L + ?d - 1) div ?d)]"
  let ?H = "(\<lambda>c. hd (t_str c)) ` set cs" and ?T = "(\<lambda>c. last (t_str c)) ` set cs"
  from load_cameras_Inr [OF load] have tss: "tss = map t_str cs"
    and ne: "\<forall>c\<in>set cs. t_str c \<noteq> []"
    and L: "L = Max (insert datetime_min ?H)" and E: "E = Min (insert datetime_max ?T)"
    by simp_all
  from d hi lo have loop: "date_range_loop L E ?d = Inr ?t_cam"
    by (rule date_range_loop_closed)
  with d have dr: "date_range L E ?d = Inr ?t_cam"
    by (simp add: date_range_def total_seconds_def)
  have bounds: "hd (t_str c) \<le> tc \<and> tc \<le> last (t_str c)"
    if c: "c \<in> set cs" and tc: "tc \<in> set ?t_cam" for c tc
  proof -
    from c have "hd (t_str c) \<le> L" and "E \<le> last (t_str c)"
      unfolding L E by (simp_all add: Max_ge Min_le)
    moreover from loop tc have "tc < E" by (rule date_range_loop_less)
    moreover from tc d have "L \<le> tc" by auto
    ultimately show ?thesis by simp
  qed
  with ne have "\<forall>t\<in>set tss. t \<noteq> [] \<and> (\<forall>tc\<in>set ?t_cam. hd t \<le> tc \<and> tc \<le> last t)"
    unfolding tss by auto
  then have "frame_nums_rows tss L ?t_cam =
           Inr (map (\<lambda>t. map (\<lambda>tc. astype_uint16
                  (x_new_index (time_to_float t L) (total_seconds (tc - L)))) ?t_cam) tss)"
    by (rule frame_nums_rows_total)
  with load dr fps show ?thesis
    by (simp add: interpolate_time_def)
qed

lemma long_t_str:
  "t_str long_cam \<noteq> []" "hd (t_str long_cam) = 0" "last (t_str long_cam) = 2621480000"
  "length (t_str long_cam) = 65538"
  by (simp_all add: long_cam_def hd_map last_map hd_upt last_upt)

lemma long_nth:
  "k < 65538 \<Longrightarrow> t_str long_cam ! k = int k * 40000"
  by (simp add: long_cam_def)

lemma long_sorted: "sorted_wrt (<) (t_str long_cam)"
  by (simp add: sorted_wrt_iff_nth_less long_t_str long_nth)

lemma long_load:
  "load_cameras long_cams ([], datetime_min, datetime_max) =
     Inr (map t_str long_cams, 0, 2621480000)"
  by (simp add: long_cams_def long_t_str aux_max_def aux_min_def datetime_min_def
        datetime_max_def)

lemma timedelta_25: "timedelta_seconds (1 / 25) = 40000"
  by (simp add: timedelta_seconds_def round_half_even_def)

lemma long_float_sorted: "sorted_wrt (<) (time_to_float (t_str long_cam) 0)"
  by (simp add: sorted_wrt_iff_nth_less nth_time_to_float long_t_str long_nth
        time_to_float_def total_seconds_def)

lemma long_index:
  assumes "k < 65537"
  shows "x_new_index (time_to_float (t_str long_cam) 0) (total_seconds (int k * 40000)) = k"
proof -
  let ?x = "time_to_float (t_str long_cam) 0"
  from assms have k: "k < length ?x"
    by (simp add: time_to_float_def long_t_str)
  with assms have "?x ! k = total_seconds (int k * 40000)"
    by (simp add: nth_time_to_float long_t_str long_nth)
  with x_new_index_exact [OF long_float_sorted k] show ?thesis by simp
qed

lemma long_row_eq:
  "map (\<lambda>tc. astype_uint16
          (x_new_index (time_to_float (t_str long_cam) 0) (total_seconds tc)))
     long_t_cam = long_row"
  unfolding long_t_cam_def long_row_def
  by (rule nth_equalityI) (simp_all add: long_index)

lemma long_run:
  "interpolate_time long_cams 25 = Inr (long_t_cam, [long_row, long_row, long_row, long_row])"
proof -
  have d: "0 < timedelta_seconds (1 / real_of_int 25)"
    and hi: "2621480000 + timedelta_seconds (1 / real_of_int 25) \<le> datetime_max"
    and lo: "datetime_min \<le> 0"
    and n: "nat ((2621480000 - 0 + timedelta_seconds (1 / real_of_int 25) - 1)
              div timedelta_seconds (1 / real_of_int 25)) = 65537"
    by (simp_all add: timedelta_25 datetime_max_def datetime_min_def)
  have t: "map (\<lambda>k. 0 + int k * timedelta_seconds (1 / real_of_int 25)) [0..<65537] = long_t_cam"
    by (simp add: timedelta_25 long_t_cam_def)
  from interpolate_time_total [OF long_load _ d hi lo]
  show ?thesis
    unfolding n t by (simp add: long_cams_def long_row_eq)
qed

text \<open>
  What the player reads back after any successful run at a positive rate: the timeline
  without its last entry.
\<close>

lemma date_range_loop_butlast:
  "date_range_loop t t_end d = Inr ts \<Longrightarrow> 0 < d \<Longrightarrow> ts \<noteq> [] \<Longrightarrow>
     date_range_loop (hd ts) (last ts) d = Inr (butlast ts)"
proof (induction t t_end d arbitrary: ts rule: date_range_loop.induct)
  case (1 t t_end d)
  show ?case
  proof (cases "t < t_end \<and> d \<noteq> 0")
    case False
    with "1.prems" show ?thesis
      by (simp add: date_range_loop.simps [of t t_end d])
  next
    case True
    with "1.prems"(1) obtain ts' where
      ok: "\<not> (t + d < datetime_min \<or> datetime_max < t + d)"
      and rec: "date_range_loop (t + d) t_end d = Inr ts'" and ts: "ts = t # ts'"
      by (auto simp: date_range_loop.simps [of t t_end d] split: if_splits sum.splits)
    show ?thesis
    proof (cases "ts' = []")
      case True
      with ts show ?thesis
        by (simp add: date_range_loop.simps [of t t d])
    next
      case False
      from rec False have "t + d < t_end"
        by (auto simp: date_range_loop.simps [of "t + d" t_end d] split: if_splits)
      with rec "1.prems"(2) have h: "hd ts' = t + d"
        using date_range_loop_hd [of "t + d" t_end d ts'] by simp
      from "1.IH" [OF True ok rec "1.prems"(2) False] h
      have r: "date_range_loop (t + d) (last ts') d = Inr (butlast ts')" by simp
      from False have "last ts' \<in> set ts'" by simp
      then obtain k where "k < length ts'" and "last ts' = ts' ! k"
        by (auto simp: in_set_conv_nth)
      with rec have "last ts' = t + d + int k * d"
        by (simp add: date_range_loop_nth)
      with "1.prems"(2) have "t < last ts'"
        by (simp add: add_pos_nonneg)
      with r ok "1.prems"(2) False ts show ?thesis
        by (simp add: date_range_loop.simps [of t "last ts'" d])
    qed
  qed
qed

lemma read_t_cam_butlast:
  assumes run: "generate_multicam_video fs t_start t_end video_fps visualize waitKey overwrite =
                  (Inr name, fs')"
    and fresh: "multicam_mp4 fs = None \<or> overwrite"
    and fps: "0 < video_fps"
    and al: "interpolate_time (cams fs) video_fps = Inr (t_cam, frame_nums)"
  shows "\<exists>h5. multicam_h5 fs' = Some h5 \<and> ds_frame_nums h5 = Some frame_nums \<and>
              read_t_cam h5 = Inr (butlast t_cam) \<and> t_cam \<noteq> []"
proof -
  let ?d = "timedelta_seconds (1 / real_of_int video_fps)"
  let ?h5 = "\<lparr>attr_t_start = Some (hd t_cam), attr_t_end = Some (last t_cam),
              attr_fps = Some video_fps, ds_frame_nums = Some frame_nums\<rparr>"
  from run fresh al have ne: "t_cam \<noteq> []" and h5: "multicam_h5 fs' = Some ?h5"
    by (auto simp: generate_multicam_video_def Let_def
          split: if_splits prod.splits option.splits)
  from al obtain L E where "date_range L E ?d = Inr t_cam"
    by (rule interpolate_time_Inr)
  then have d0: "?d \<noteq> 0" and loop: "date_range_loop L E ?d = Inr t_cam"
    by (simp_all add: date_range_Inr)
  from fps d0 have d: "0 < ?d"
    using timedelta_seconds_nonneg [of video_fps] by simp
  from date_range_loop_butlast [OF loop d ne] d0 fps
  have "read_t_cam ?h5 = Inr (butlast t_cam)"
    by (simp add: read_t_cam_def date_range_def total_seconds_def)
  with h5 ne show ?thesis by simp
qed

section \<open>The claims\<close>






text \<open>
  C7. For every playback state and every arrow key, the key command returns without an
  error and without leaving the loop, and the frame number it leaves is the one the key
  asked for clamped into the positions of the stream, from 0 to the frame count: it is
  never negative, and a step back past 0 leaves 0.
\<close>

theorem navigation_clamped:
  assumes "k \<in> {63232, 63233, 63234, 63235}"
  shows "\<exists>s'. key_command cb t_cam frame_count k s = Inr (False, s') \<and>
              frame_n s' = max 0 (min (frame_n s + frame_step k) (int frame_count)) \<and>
              0 \<le> frame_n s' \<and> frame_n s' \<le> int frame_count \<and>
              (frame_n s + frame_step k < 0 \<longrightarrow> frame_n s' = 0)"
  using assms
  by (auto simp: key_command_def key_dispatch_def VideoCapture_set_get_pos_def frame_step_def
        Let_def)

theorem navigation_clamped_witness:
  "(63234 :: int) \<in> {63232, 63233, 63234, 63235} \<and>
   frame_n player0 + frame_step 63234 < 0 \<and>
   key_command False [0, 40000] 100 63234 player0 =
     Inr (False, player0\<lparr>frame_n := 0, refresh_weight := True, do_skip_frames := True\<rparr>)"
proof -
  have k: "(63234 :: int) \<in> {63232, 63233, 63234, 63235}" by simp
  from navigation_clamped [OF k, of False "[0, 40000]" 100 player0] k
  show ?thesis
    by (simp add: key_command_def key_dispatch_def VideoCapture_set_get_pos_def frame_step_def
          player0_def LEFT_RIGHT_MULTIPLIER_def FRAME_INCREMENT_def Let_def)
qed

text \<open>
  C8, as the code has it. For every key press (a positive key code) that the key command
  handles without an error, the loop exits exactly when the key is escape, whether or not
  an event callback is configured, or when the key table of the specification says so:
  the key is bound to no command and no callback is configured.
\<close>

theorem exit_keys:
  assumes "0 < k" and "key_command cb t_cam frame_count k s = Inr (brk, s')"
  shows "brk \<longleftrightarrow> k = 27 \<or> spec_exit cb k"
  using assms
  by (auto simp: key_command_def key_dispatch_def spec_exit_def spec_bound_key_def Let_def
        split: if_splits sum.splits)

theorem exit_keys_witness:
  "(0 :: int) < 120 \<and>
   key_command False [0, 40000] 100 120 player0 =
     Inr (True, player0\<lparr>refresh_weight := False\<rparr>) \<and>
   spec_exit False 120"
proof -
  have k: "(0 :: int) < 120" by simp
  have r: "key_command False [0, 40000] 100 120 player0 =
     Inr (True, player0\<lparr>refresh_weight := False\<rparr>)"
    by (simp add: key_command_def key_dispatch_def player0_def Let_def)
  from exit_keys [OF k r] k r show ?thesis by simp
qed

text \<open>
  C8 as stated fails for escape with a callback configured: the key table of the
  specification suppresses the exit, the code leaves the loop.
\<close>

theorem escape_with_callback_counterexample:
  "key_command True [0, 40000] 100 27 player0 = Inr (True, player0\<lparr>refresh_weight := False\<rparr>) \<and>
   \<not> spec_exit True 27"
  by (simp add: key_command_def key_dispatch_def player0_def Let_def spec_exit_def)

text \<open>
  C4, as the code has it. When the latest start is not before the earliest end (every
  camera has a timestamp, the rate is not zero, the step of the timeline is not zero, and
  the output video is absent or is to be overwritten), the synchronizer builds an empty
  virtual timeline and aborts with the IndexError of \<^verbatim>\<open>t_cam[0]\<close>, after the output
  video and the alignment file have been created: both are left empty, and none of
  \<open>t_start\<close>, \<open>t_end\<close>, \<open>fps\<close> and \<open>frame_nums\<close> is persisted.
\<close>

theorem no_overlap_aborts:
  assumes "load_cameras (cams fs) ([], datetime_min, datetime_max) =
             Inr (camera_timestamps, t_latest_start, t_earliest_end)"
    and "t_earliest_end \<le> t_latest_start"
    and "video_fps \<noteq> 0"
    and "timedelta_seconds (1 / real_of_int video_fps) \<noteq> 0"
    and "multicam_mp4 fs = None \<or> overwrite"
  shows "generate_multicam_video fs t_start t_end video_fps visualize waitKey overwrite =
           (Inl IndexError, fs\<lparr>multicam_mp4 := Some [], multicam_h5 := Some empty_h5\<rparr>)"
  using interpolate_time_no_overlap [OF assms(1-4)] assms(5)
  by (auto simp: generate_multicam_video_def)

theorem no_overlap_aborts_witness:
  "load_cameras (cams zero_overlap_folder) ([], datetime_min, datetime_max) =
     Inr (map t_str (cams zero_overlap_folder), 2000000, 2000000) \<and>
   (2000000 :: int) \<le> 2000000 \<and> (25 :: int) \<noteq> 0 \<and>
   timedelta_seconds (1 / real_of_int 25) = 40000 \<and>
   multicam_mp4 zero_overlap_folder = None \<and>
   generate_multicam_video zero_overlap_folder 0 (- 1) 25 False no_key False =
     (Inl IndexError,
      zero_overlap_folder\<lparr>multicam_mp4 := Some [], multicam_h5 := Some empty_h5\<rparr>)"
proof -
  have l: "load_cameras (cams zero_overlap_folder) ([], datetime_min, datetime_max) =
     Inr (map t_str (cams zero_overlap_folder), 2000000, 2000000)"
    by (simp add: zero_overlap_folder_def late_cam_def cam_a_def aux_max_def aux_min_def
        datetime_min_def datetime_max_def)
  have d: "timedelta_seconds (1 / real_of_int 25) = 40000"
    by (simp add: timedelta_seconds_def round_half_even_def)
  then have d0: "timedelta_seconds (1 / real_of_int 25) \<noteq> 0" by simp
  have m: "multicam_mp4 zero_overlap_folder = None \<or> False"
    by (simp add: zero_overlap_folder_def)
  from no_overlap_aborts [OF l _ _ d0 m, of 0 "- 1" False no_key] l d m
  show ?thesis by simp
qed

text \<open>
  C4 as stated fails at zero overlap: the failure is the IndexError of an empty timeline,
  not a reported configuration error, and an alignment file without attributes and
  without the dataset is left behind, next to an empty output video.
\<close>

theorem zero_overlap_counterexample:
  "load_cameras (cams zero_overlap_folder) ([], datetime_min, datetime_max) =
     Inr (map t_str (cams zero_overlap_folder), 2000000, 2000000) \<and>
   generate_multicam_video zero_overlap_folder 0 (- 1) 25 False no_key False =
     (Inl IndexError,
      zero_overlap_folder\<lparr>multicam_mp4 := Some [], multicam_h5 := Some empty_h5\<rparr>)"
  by (simp add: video_simps zero_overlap_run)
     (simp add: zero_overlap_folder_def late_cam_def cam_a_def aux_max_def aux_min_def
        datetime_min_def datetime_max_def)



text \<open>
  C6 fails on the code. Frame 1 of the first camera cannot be read, and the run neither
  aborts nor skips the frame: it returns the name of the video, whose second frame holds
  in its first quadrant what the buffer held before, the first output frame.
\<close>

theorem failed_read_not_fatal:
  "VideoCapture_read (mp4 (short_cams ! 0)) 1 Zeros = (False, Zeros) \<and>
   generate_multicam_video short_folder 0 (- 1) 1 False no_key False =
     (Inr ''Dataset/2019-03-31_00-00-03/multicam_2019-03-31_00-00-03.mp4'',
      short_folder
        \<lparr>multicam_mp4 :=
           Some [Tiled [CamFrame 1 0, CamFrame 2 0, CamFrame 3 0, CamFrame 4 0],
                 Tiled [Tiled [CamFrame 1 0, CamFrame 2 0, CamFrame 3 0, CamFrame 4 0],
                        CamFrame 2 1, CamFrame 3 1, CamFrame 4 1]],
         multicam_h5 :=
           Some \<lparr>attr_t_start = Some 0, attr_t_end = Some 1000000, attr_fps = Some 1,
                  ds_frame_nums = Some [[0, 1], [0, 1], [0, 1], [0, 1]]\<rparr>\<rparr>)"
  by (simp add: video_simps short_run short_folder_def)
     (simp add: short_cams_def short_cam_def cam_a_def)

text \<open>
  C3 fails on the code. The run stores the last entry of the timeline as \<open>t_end\<close>, and
  the timeline read back from the alignment file stops before it: one entry, where the
  synchronizer computed two and each row of \<open>frame_nums\<close> has two.
\<close>

theorem timeline_read_back_short:
  "generate_multicam_video example_folder 0 (- 1) 1 False no_key False =
     (Inr ''Dataset/2019-03-31_00-00-01/multicam_2019-03-31_00-00-01.mp4'',
      example_folder\<lparr>multicam_mp4 := Some example_mp4, multicam_h5 := Some example_h5\<rparr>) \<and>
   interpolate_time (cams example_folder) 1 =
     Inr ([100000, 1100000], [[0, 1], [0, 1], [0, 1], [0, 1]]) \<and>
   read_t_cam example_h5 = Inr [100000]"
  using example_video example_run
  by (simp add: example_folder_def read_t_cam_def example_h5_def run_simps)




text \<open>
  C9, as the code has it. Whenever the synchronizer returns for a positive rate, the row of
  a camera whose timestamps are non-decreasing and that has at most 65536 frames is
  non-decreasing along the virtual timeline.
\<close>

theorem frame_nums_row_sorted:
  assumes run: "interpolate_time cs video_fps = Inr (t_cam, frame_nums)"
    and i: "i < length cs"
    and srt: "sorted (t_str (cs ! i))"
    and len: "length (t_str (cs ! i)) \<le> 65536"
    and fps: "0 < video_fps"
  shows "sorted (map unat (frame_nums ! i))"
proof -
  let ?ts = "t_str (cs ! i)" and ?d = "timedelta_seconds (1 / real_of_int video_fps)"
  from run i obtain L E where
    dr: "date_range L E ?d = Inr t_cam"
    and ne: "?ts \<noteq> []"
    and row: "frame_nums ! i =
           map (\<lambda>tc. astype_uint16 (x_new_index (time_to_float ?ts L) (total_seconds (tc - L))))
             t_cam"
    by (rule frame_nums_row)
  let ?f = "\<lambda>tc. x_new_index (time_to_float ?ts L) (total_seconds (tc - L))"
  have u: "unat (astype_uint16 (?f tc)) = ?f tc" for tc
  proof -
    from ne have "?f tc < length ?ts" by (rule x_new_index_time_less)
    with len show ?thesis by (simp add: unat_astype_uint16)
  qed
  from row have m: "map unat (frame_nums ! i) = map ?f t_cam"
    by (simp add: u)
  from dr have d0: "?d \<noteq> 0" and loop: "date_range_loop L E ?d = Inr t_cam"
    by (simp_all add: date_range_Inr)
  from fps d0 have "0 < ?d"
    using timedelta_seconds_nonneg [of video_fps] by simp
  with loop have st: "sorted t_cam" by (rule date_range_loop_sorted)
  have "?f a \<le> ?f b" if "a \<le> b" for a b
    using that by (intro x_new_index_mono) (simp add: total_seconds_def divide_right_mono)
  with st have "sorted (map ?f t_cam)"
    by (simp add: sorted_map sorted_wrt_mono_rel [of t_cam "(\<le>)"])
  with m show ?thesis by simp
qed

theorem frame_nums_row_sorted_witness:
  "interpolate_time example_cams 1 =
     Inr ([100000, 1100000], [[0, 1], [0, 1], [0, 1], [0, 1]]) \<and>
   sorted (t_str (example_cams ! 2)) \<and> length (t_str (example_cams ! 2)) \<le> 65536 \<and>
   (0 :: int) < 1 \<and>
   sorted (map unat ([[0, 1], [0, 1], [0, 1], [0, 1 :: uint16]] ! 2))"
proof -
  have s: "sorted (t_str (example_cams ! 2))"
    and l: "length (t_str (example_cams ! 2)) \<le> 65536"
    by (simp_all add: example_cams_def cam_a_def)
  have i: "2 < length example_cams" by (simp add: example_cams_def)
  have f: "(0 :: int) < 1" by simp
  from frame_nums_row_sorted [OF example_run i s l f] example_run s l
  show ?thesis by simp
qed

text \<open>
  C9 as stated fails once the frame numbers pass 65535. With 65538 frames per camera, one
  every 40 ms and strictly increasing timestamps, the row of the table at 25 frames per
  second holds 65535 at position 65535 and 0 at position 65536: the 16-bit value wraps
  around and the row steps backward.
\<close>

theorem long_row_counterexample:
  "sorted (t_str long_cam) \<and> length (t_str long_cam) = 65538 \<and>
   interpolate_time long_cams 25 = Inr (long_t_cam, [long_row, long_row, long_row, long_row]) \<and>
   unat (long_row ! 65535) = 65535 \<and> unat (long_row ! 65536) = 0 \<and>
   \<not> sorted (map unat long_row)"
proof -
  have a: "unat (long_row ! 65535) = 65535" and b: "unat (long_row ! 65536) = 0"
    by (simp_all add: long_row_def unat_astype_uint16)
  have "\<not> sorted (map unat long_row)"
  proof
    assume "sorted (map unat long_row)"
    then have "map unat long_row ! 65535 \<le> map unat long_row ! 65536"
      by (rule sorted_nth_mono) (simp_all add: long_row_def)
    then show False
      using a b by (simp add: long_row_def)
  qed
  with a b long_run long_sorted long_t_str(4) show ?thesis
    by (simp add: strict_sorted_iff)
qed

end
